theory Spec2Isabelle
  imports Main
begin

section \<open>Strings of Unicode code points\<close>

text \<open>
  A Python \<^verbatim>\<open>str\<close> is a sequence of Unicode code points and \<^verbatim>\<open>len\<close>, slicing and
  the regular expressions of the script count code points.  A character is therefore
  modelled by its code point (a natural number) and a string by a list of them.
  String literals of the script are written \<open>ustr ''...''\<close>.
\<close>

type_synonym uchar = nat
type_synonym ustring = "uchar list"

abbreviation ustr :: "string \<Rightarrow> ustring" where
  "ustr s \<equiv> map (of_char :: char \<Rightarrow> nat) s"

text \<open>
  Whitespace as \<^verbatim>\<open>str.strip()\<close> and the class \<^verbatim>\<open>\s\<close> of \<^verbatim>\<open>re\<close> on \<^verbatim>\<open>str\<close> patterns see
  it (both use CPython's \<^verbatim>\<open>Py_UNICODE_ISSPACE\<close>): U+0009..U+000D, U+001C..U+0020, U+0085,
  U+00A0, U+1680, U+2000..U+200A, U+2028, U+2029, U+202F, U+205F, U+3000.
\<close>

definition is_space :: "uchar \<Rightarrow> bool" where
  "is_space c \<longleftrightarrow>
     (9 \<le> c \<and> c \<le> 13) \<or> (28 \<le> c \<and> c \<le> 32) \<or> c = 133 \<or> c = 160 \<or> c = 5760 \<or>
     (8192 \<le> c \<and> c \<le> 8202) \<or> c = 8232 \<or> c = 8233 \<or> c = 8239 \<or> c = 8287 \<or> c = 12288"

text \<open>\<^verbatim>\<open>s.lstrip()\<close>, \<^verbatim>\<open>s.rstrip()\<close> and \<^verbatim>\<open>s.strip()\<close>.\<close>

definition lstrip :: "ustring \<Rightarrow> ustring" where
  "lstrip s = dropWhile is_space s"

definition rstrip :: "ustring \<Rightarrow> ustring" where
  "rstrip s = rev (dropWhile is_space (rev s))"

definition strip :: "ustring \<Rightarrow> ustring" where
  "strip s = rstrip (lstrip s)"

text \<open>
  \<^verbatim>\<open>re.sub(r"\s+", " ", s)\<close>: every maximal run of whitespace becomes one space
  (U+0020).
\<close>

function sub_ws :: "ustring \<Rightarrow> ustring" where
  "sub_ws [] = []"
| "sub_ws (c # cs) =
     (if is_space c then 32 # sub_ws (dropWhile is_space cs) else c # sub_ws cs)"
  by pat_completeness auto
termination
  by (relation "measure length") (auto simp: le_imp_less_Suc length_dropWhile_le)

text \<open>
  \<^verbatim>\<open>re.sub(r"[\\/:*?\"<>|]", "-", s)\<close>: the nine characters
  \<^verbatim>\<open>\ / : * ? " < > |\<close> (code points 92, 47, 58, 42, 63, 34, 60, 62, 124) each become
  \<^verbatim>\<open>-\<close> (U+002D, code point 45).
\<close>

definition reserved :: "uchar \<Rightarrow> bool" where
  "reserved c \<longleftrightarrow>
     c = 92 \<or> c = 47 \<or> c = 58 \<or> c = 42 \<or> c = 63 \<or> c = 34 \<or> c = 60 \<or> c = 62 \<or> c = 124"

definition sub_reserved :: "ustring \<Rightarrow> ustring" where
  "sub_reserved s = map (\<lambda>c. if reserved c then 45 else c) s"

section \<open>\<^verbatim>\<open>_sanitize_filename\<close>\<close>

definition sanitize_filename :: "ustring \<Rightarrow> ustring" where
  "sanitize_filename name0 =
     (let name = strip name0 in
      if name = [] then ustr ''untitled''
      else
        let name = sub_reserved name;
            name = strip (sub_ws name)
        in take 120 name)"

section \<open>\<^verbatim>\<open>_extract_title\<close>\<close>

text \<open>
  The functions of \<^verbatim>\<open>urllib.parse\<close> and the crawler of \<^verbatim>\<open>crawl4ai\<close> are not code of the
  script: they are parameters of the model.  Of a parsed URL the script reads the
  scheme, the network location and the path only.
\<close>

record parse_result =
  scheme :: ustring
  netloc :: ustring
  path :: ustring

datatype error =
  ValueError ustring
| AttributeError ustring

text \<open>
  A literal character of a pattern compiled with \<^verbatim>\<open>re.IGNORECASE\<close> (on \<^verbatim>\<open>str\<close>): an ASCII
  letter matches both of its cases, and \<^verbatim>\<open>i\<close>, \<^verbatim>\<open>k\<close>, \<^verbatim>\<open>s\<close> also match U+0130 and U+0131,
  U+212A, U+017F.  The pattern character \<open>p\<close> is given in lower case.
\<close>

definition lit_ci :: "uchar \<Rightarrow> uchar \<Rightarrow> bool" where
  "lit_ci p c \<longleftrightarrow>
     c = p \<or> (97 \<le> p \<and> p \<le> 122 \<and> c + 32 = p) \<or>
     (p = 105 \<and> (c = 304 \<or> c = 305)) \<or> (p = 107 \<and> c = 8490) \<or> (p = 115 \<and> c = 383)"

text \<open>Matching a literal pattern at the head of a string: the rest of the string.\<close>

fun prefix_ci :: "ustring \<Rightarrow> ustring \<Rightarrow> ustring option" where
  "prefix_ci [] s = Some s"
| "prefix_ci (p # ps) [] = None"
| "prefix_ci (p # ps) (c # cs) = (if lit_ci p c then prefix_ci ps cs else None)"

text \<open>
  \<^verbatim>\<open><title[^>]*>\<close> at the head of a string: the literal, then every character up to the
  first \<^verbatim>\<open>>\<close>, which must be there.  The result is the text after it.
\<close>

definition open_tag :: "ustring \<Rightarrow> ustring option" where
  "open_tag s =
     (case prefix_ci (ustr ''<title'') s of
        None \<Rightarrow> None
      | Some r \<Rightarrow> (case dropWhile (\<lambda>c. c \<noteq> 62) r of [] \<Rightarrow> None | _ # body \<Rightarrow> Some body))"

text \<open>
  \<^verbatim>\<open>(.*?)</title>\<close> with \<^verbatim>\<open>re.DOTALL\<close>: the shortest text followed by the closing tag.
\<close>

fun until_close :: "ustring \<Rightarrow> ustring option" where
  "until_close [] = None"
| "until_close (c # cs) =
     (if prefix_ci (ustr ''</title>'') (c # cs) \<noteq> None then Some []
      else map_option ((#) c) (until_close cs))"

text \<open>
  \<^verbatim>\<open>re.search(r"<title[^>]*>(.*?)</title>", html, flags=re.IGNORECASE | re.DOTALL)\<close>:
  the leftmost position where the pattern matches; the result is \<^verbatim>\<open>match.group(1)\<close>.
\<close>

fun title_search :: "ustring \<Rightarrow> ustring option" where
  "title_search [] = None"
| "title_search (c # cs) =
     (case (case open_tag (c # cs) of None \<Rightarrow> None | Some body \<Rightarrow> until_close body) of
        Some g \<Rightarrow> Some g
      | None \<Rightarrow> title_search cs)"

text \<open>\<^verbatim>\<open>s.rstrip("/")\<close> and \<^verbatim>\<open>s.split("/")\<close> (which never returns an empty list).\<close>

definition rstrip_slash :: "ustring \<Rightarrow> ustring" where
  "rstrip_slash s = rev (dropWhile (\<lambda>c. c = 47) (rev s))"

fun split_slash :: "ustring \<Rightarrow> ustring list" where
  "split_slash [] = [[]]"
| "split_slash (c # cs) =
     (if c = 47 then [] # split_slash cs
      else (case split_slash cs of [] \<Rightarrow> [[c]] | w # ws \<Rightarrow> (c # w) # ws))"

text \<open>
  \<^verbatim>\<open>metadata and metadata.get("title")\<close>: the title when the mapping is there, has the key
  and the value is not empty (an empty dictionary has no key).
\<close>

definition metadata_title :: "(ustring \<rightharpoonup> ustring) option \<Rightarrow> ustring option" where
  "metadata_title metadata =
     (case metadata of
        None \<Rightarrow> None
      | Some m \<Rightarrow> (case m (ustr ''title'') of None \<Rightarrow> None | Some t \<Rightarrow> if t = [] then None else Some t))"

text \<open>
  The message of the \<^verbatim>\<open>AttributeError\<close>; code point 39 is the apostrophe.
\<close>

definition unescape_message :: ustring where
  "unescape_message =
     [39] @ ustr ''str'' @ [39] @ ustr '' object has no attribute '' @ [39] @ ustr ''unescape'' @ [39]"

text \<open>
  The parameter \<^verbatim>\<open>html\<close> of \<^verbatim>\<open>_extract_title\<close> hides the module \<^verbatim>\<open>html\<close> inside the
  function: \<^verbatim>\<open>html.unescape(match.group(1))\<close> is an attribute access on a \<^verbatim>\<open>str\<close>, and
  raises \<^verbatim>\<open>AttributeError\<close>.  The three lines after it are never reached.
\<close>

definition extract_title ::
  "(ustring \<Rightarrow> parse_result) \<Rightarrow> (ustring \<rightharpoonup> ustring) option \<Rightarrow> ustring \<Rightarrow> ustring \<Rightarrow> error + ustring"
where
  "extract_title urlparse metadata html url =
     (case metadata_title metadata of
        Some t \<Rightarrow> Inr t
      | None \<Rightarrow>
          if html \<noteq> [] \<and> title_search html \<noteq> None
          then Inl (AttributeError unescape_message)
          else
            let path = rstrip_slash (path (urlparse url));
                seg = last (split_slash path)
            in Inr (if seg \<noteq> [] then seg else url))"

section \<open>\<^verbatim>\<open>_get_markdown\<close>\<close>

text \<open>
  \<^verbatim>\<open>result.markdown\<close> is \<^verbatim>\<open>None\<close>, a string, or an object with a field \<^verbatim>\<open>raw_markdown\<close>
  (a string or \<^verbatim>\<open>None\<close>).
\<close>

datatype markdown_value = MdNone | MdStr ustring | MdObj "ustring option"

fun get_markdown :: "markdown_value \<Rightarrow> ustring" where
  "get_markdown MdNone = []"
| "get_markdown (MdStr s) = s"
| "get_markdown (MdObj raw) = (case raw of None \<Rightarrow> [] | Some s \<Rightarrow> s)"

section \<open>\<^verbatim>\<open>crawl_site\<close>\<close>

record link =
  href :: "ustring option"

text \<open>
  The fields of a result that the script reads; \<open>error_message\<close> is the text that the
  f-string prints for \<^verbatim>\<open>result.error_message\<close>.
\<close>

record crawl_result =
  success :: bool
  error_message :: ustring
  url :: ustring
  html :: ustring
  metadata :: "(ustring \<rightharpoonup> ustring) option"
  markdown :: markdown_value
  links :: "(ustring \<rightharpoonup> link list) option"

text \<open>
  The collaborators: \<^verbatim>\<open>urlparse\<close>, \<^verbatim>\<open>urldefrag(_).url\<close> and \<^verbatim>\<open>urljoin\<close> of \<^verbatim>\<open>urllib.parse\<close>,
  and \<^verbatim>\<open>crawler.arun\<close>.  They are taken as total functions: a collaborator that raises
  (\<^verbatim>\<open>urllib\<close> on a malformed bracketed host, the crawler, the file system) is outside the
  model, and so are opening and closing the crawler.  The loop passes a URL to \<^verbatim>\<open>arun\<close>
  only after adding it to \<^verbatim>\<open>seen\<close>, and never one that is in \<^verbatim>\<open>seen\<close>, so no URL is fetched
  twice in a run and a function of the URL describes every sequence of answers.
\<close>

record env =
  urlparse :: "ustring \<Rightarrow> parse_result"
  urldefrag :: "ustring \<Rightarrow> ustring"
  urljoin :: "ustring \<Rightarrow> ustring \<Rightarrow> ustring"
  arun :: "ustring \<Rightarrow> crawl_result"

text \<open>
  What a run does to the outside: the directories made (\<^verbatim>\<open>os.makedirs\<close>), the URLs
  fetched (\<^verbatim>\<open>crawler.arun\<close>), the lines printed, and the files written, each with the
  directory and the file name that \<^verbatim>\<open>os.path.join\<close> receives and the text written.  All
  in the order of the run.
\<close>

record effects =
  made_dirs :: "ustring list"
  fetched :: "ustring list"
  printed :: "ustring list"
  written :: "(ustring \<times> ustring \<times> ustring) list"

text \<open>The variables of the loop, with the effects so far.\<close>

record state = effects +
  seen :: "ustring set"
  queue :: "ustring list"
  used_names :: "ustring \<rightharpoonup> nat"

text \<open>\<^verbatim>\<open>str(n)\<close> for a natural number.\<close>

fun str_nat :: "nat \<Rightarrow> ustring" where
  "str_nat n = (if n < 10 then [48 + n] else str_nat (n div 10) @ [48 + n mod 10])"

text \<open>\<^verbatim>\<open>max_pages is not None and len(seen) >= max_pages\<close>.\<close>

definition cap_reached :: "int option \<Rightarrow> state \<Rightarrow> bool" where
  "cap_reached max_pages st =
     (case max_pages of None \<Rightarrow> False | Some n \<Rightarrow> int (card (seen st)) \<ge> n)"

text \<open>
  \<^verbatim>\<open>result.links.get("internal", []) if result.links else []\<close> (an empty dictionary has
  no key).
\<close>

definition internal_links :: "crawl_result \<Rightarrow> link list" where
  "internal_links result =
     (case links result of
        None \<Rightarrow> []
      | Some m \<Rightarrow> (case m (ustr ''internal'') of None \<Rightarrow> [] | Some ls \<Rightarrow> ls))"

text \<open>The \<^verbatim>\<open>for link in internal_links\<close> loop.\<close>

fun enqueue_links :: "env \<Rightarrow> ustring \<Rightarrow> ustring \<Rightarrow> link list \<Rightarrow> state \<Rightarrow> state" where
  "enqueue_links e base_netloc result_url [] st = st"
| "enqueue_links e base_netloc result_url (l # ls) st =
     (case href l of
        None \<Rightarrow> enqueue_links e base_netloc result_url ls st
      | Some h \<Rightarrow>
          if h = [] then enqueue_links e base_netloc result_url ls st
          else
            let abs_url = urldefrag e (urljoin e result_url h);
                parsed = urlparse e abs_url
            in
              if scheme parsed \<noteq> ustr ''http'' \<and> scheme parsed \<noteq> ustr ''https''
              then enqueue_links e base_netloc result_url ls st
              else if netloc parsed \<noteq> base_netloc
              then enqueue_links e base_netloc result_url ls st
              else if abs_url \<notin> seen st
              then enqueue_links e base_netloc result_url ls (st\<lparr>queue := queue st @ [abs_url]\<rparr>)
              else enqueue_links e base_netloc result_url ls st)"

text \<open>The line printed for a failed fetch.\<close>

definition skip_line :: "ustring \<Rightarrow> ustring \<Rightarrow> ustring" where
  "skip_line current msg = ustr ''Skip (failed): '' @ current @ ustr '' -> '' @ msg"

text \<open>The file name of a page: the base name, then \<^verbatim>\<open>-k\<close> from its second use on.\<close>

definition make_filename :: "ustring \<Rightarrow> nat \<Rightarrow> ustring" where
  "make_filename base_name count =
     (if count = 0 then base_name @ ustr ''.md''
      else base_name @ ustr ''-'' @ str_nat (count + 1) @ ustr ''.md'')"

text \<open>
  One pass through the \<^verbatim>\<open>while queue:\<close> loop: the loop ends (the queue is empty, or
  \<^verbatim>\<open>break\<close>), goes on with a new state, or an exception leaves it.
\<close>

datatype step_result = Exit | Continue state | Raise error state

definition step :: "env \<Rightarrow> ustring \<Rightarrow> ustring \<Rightarrow> int option \<Rightarrow> state \<Rightarrow> step_result" where
  "step e base_netloc output_dir max_pages st =
     (case queue st of
        [] \<Rightarrow> Exit
      | head # rest \<Rightarrow>
          if cap_reached max_pages st then Exit
          else
            let current = urldefrag e head;
                st = st\<lparr>queue := rest\<rparr>
            in
              if current \<in> seen st then Continue st
              else
                let st = st\<lparr>seen := insert current (seen st), fetched := fetched st @ [current]\<rparr>;
                    result = arun e current
                in
                  if \<not> success result
                  then Continue (st\<lparr>printed := printed st @ [skip_line current (error_message result)]\<rparr>)
                  else
                    let md = get_markdown (markdown result) in
                    (case extract_title (urlparse e) (metadata result) (html result) (url result) of
                       Inl err \<Rightarrow> Raise err st
                     | Inr title \<Rightarrow>
                         let base_name = sanitize_filename title;
                             count = (case used_names st base_name of None \<Rightarrow> 0 | Some n \<Rightarrow> n);
                             st = st\<lparr>used_names := (used_names st)(base_name \<mapsto> count + 1)\<rparr>;
                             filename = make_filename base_name count;
                             st = st\<lparr>written := written st @ [(output_dir, filename, md)]\<rparr>
                         in Continue (enqueue_links e base_netloc (url result) (internal_links result) st)))"

text \<open>
  The loop, with fuel: the number of passes allowed.  \<open>None\<close> says the fuel ran out
  before the loop ended; otherwise the result is the exception that left the loop, if
  any, and the last state.
\<close>

fun crawl_loop ::
  "env \<Rightarrow> ustring \<Rightarrow> ustring \<Rightarrow> int option \<Rightarrow> nat \<Rightarrow> state \<Rightarrow> ((error + unit) \<times> state) option"
where
  "crawl_loop e base_netloc output_dir max_pages 0 st = None"
| "crawl_loop e base_netloc output_dir max_pages (Suc n) st =
     (case step e base_netloc output_dir max_pages st of
        Exit \<Rightarrow> Some (Inr (), st)
      | Raise err st' \<Rightarrow> Some (Inl err, st')
      | Continue st' \<Rightarrow> crawl_loop e base_netloc output_dir max_pages n st')"

text \<open>The state when the loop is entered: lines 52 to 56 of the script.\<close>

definition init_state :: "ustring \<Rightarrow> ustring \<Rightarrow> state" where
  "init_state start_url output_dir =
     \<lparr>made_dirs = [output_dir], fetched = [], printed = [], written = [],
      seen = {}, queue = [start_url], used_names = Map.empty\<rparr>"

definition no_effects :: effects where
  "no_effects = \<lparr>made_dirs = [], fetched = [], printed = [], written = []\<rparr>"

definition effects_of :: "state \<Rightarrow> effects" where
  "effects_of st =
     \<lparr>made_dirs = made_dirs st, fetched = fetched st, printed = printed st, written = written st\<rparr>"

text \<open>
  \<^verbatim>\<open>crawl_site\<close>: \<open>None\<close> when the fuel does not suffice; otherwise \<open>Inl\<close> the exception
  it raises or \<open>Inr ()\<close> when it returns, and the effects of the run.
\<close>

definition crawl_site ::
  "env \<Rightarrow> nat \<Rightarrow> ustring \<Rightarrow> ustring \<Rightarrow> int option \<Rightarrow> ((error + unit) \<times> effects) option"
where
  "crawl_site e fuel start_url output_dir max_pages =
     (let parsed_start = urlparse e start_url;
          base_netloc = netloc parsed_start
      in
        if base_netloc = [] then Some (Inl (ValueError (ustr ''Invalid start URL.'')), no_effects)
        else
          map_option (\<lambda>(r, st). (r, effects_of st))
            (crawl_loop e base_netloc output_dir max_pages fuel (init_state start_url output_dir)))"

section \<open>A small site\<close>

text \<open>
  An instance of the collaborators, to run the model on.  The three URL functions agree
  with \<^verbatim>\<open>urllib.parse\<close> on the URLs of this section: \<^verbatim>\<open>scheme://netloc/path#fragment\<close>,
  \<^verbatim>\<open>mailto:\<close> addresses, and references that start with \<^verbatim>\<open>/\<close>.  No theorem about every
  \<^typ>\<open>env\<close> depends on them.
\<close>

definition ex_urldefrag :: "ustring \<Rightarrow> ustring" where
  "ex_urldefrag u = takeWhile (\<lambda>c. c \<noteq> 35) u"

definition ex_urlparse :: "ustring \<Rightarrow> parse_result" where
  "ex_urlparse u =
     (let s = takeWhile (\<lambda>c. c \<noteq> 58) u;
          r = drop (Suc (length s)) u;
          stop = (\<lambda>c. c = 47 \<or> c = 63 \<or> c = 35);
          upto = (\<lambda>t. takeWhile (\<lambda>c. c \<noteq> 63 \<and> c \<noteq> 35) t)
      in
        if s = [] \<or> length s = length u \<or> (\<exists>c \<in> set s. stop c)
        then \<lparr>scheme = [], netloc = [], path = upto u\<rparr>
        else if take 2 r = ustr ''//''
        then \<lparr>scheme = s, netloc = takeWhile (\<lambda>c. \<not> stop c) (drop 2 r),
              path = upto (dropWhile (\<lambda>c. \<not> stop c) (drop 2 r))\<rparr>
        else \<lparr>scheme = s, netloc = [], path = upto r\<rparr>)"

definition ex_urljoin :: "ustring \<Rightarrow> ustring \<Rightarrow> ustring" where
  "ex_urljoin base ref =
     (if scheme (ex_urlparse ref) \<noteq> [] then ref
      else scheme (ex_urlparse base) @ ustr ''://'' @ netloc (ex_urlparse base) @ ref)"

definition page :: "ustring \<Rightarrow> ustring \<Rightarrow> ustring \<Rightarrow> ustring list \<Rightarrow> crawl_result" where
  "page u title body hrefs =
     \<lparr>success = True, error_message = [], url = u, html = [],
      metadata = Some [ustr ''title'' \<mapsto> title], markdown = MdStr body,
      links = Some [ustr ''internal'' \<mapsto> map (\<lambda>h. \<lparr>href = Some h\<rparr>) hrefs]\<rparr>"

definition failed :: "ustring \<Rightarrow> ustring \<Rightarrow> crawl_result" where
  "failed u msg =
     \<lparr>success = False, error_message = msg, url = u, html = [], metadata = None,
      markdown = MdNone, links = None\<rparr>"

text \<open>
  The site \<^verbatim>\<open>http://h\<close>: a home page titled \<^verbatim>\<open>Home\<close> that links to \<^verbatim>\<open>/a\<close> (twice, once
  with a fragment), to another host, to a \<^verbatim>\<open>mailto:\<close> address, to nothing, and to
  \<^verbatim>\<open>/b\<close>; the page \<^verbatim>\<open>/a\<close>, also titled \<^verbatim>\<open>Home\<close>; the page \<^verbatim>\<open>/b\<close>, titled \<^verbatim>\<open>Home-2\<close>; the page
  \<^verbatim>\<open>/t\<close>, whose title is in its HTML only.  Every other URL fails to load.
\<close>

definition ex_arun :: "ustring \<Rightarrow> crawl_result" where
  "ex_arun u =
     (if u = ustr ''http://h/'' then
        page u (ustr ''Home'') (ustr ''home page'')
          [ustr ''http://h/a'', ustr ''http://h/a#top'', ustr ''http://other/b'',
           ustr ''mailto:x@h'', [], ustr ''/b'']
      else if u = ustr ''http://h/a'' then
        page u (ustr ''Home'') (ustr ''page a'') [ustr ''http://h/'']
      else if u = ustr ''http://h/b'' then
        page u (ustr ''Home-2'') (ustr ''page b'') []
      else if u = ustr ''http://h/t'' then
        (page u [] [] [])\<lparr>html := ustr ''<html><TITLE lang=en>T</title></html>''\<rparr>
      else failed u (ustr ''not found''))"

definition ex_env :: env where
  "ex_env = \<lparr>urlparse = ex_urlparse, urldefrag = ex_urldefrag, urljoin = ex_urljoin, arun = ex_arun\<rparr>"

section \<open>Predicates used in the proofs\<close>

text \<open>
  A string is \<open>collapsed\<close> when each of its whitespace characters is a space that no
  whitespace follows.
\<close>

fun collapsed :: "ustring \<Rightarrow> bool" where
  "collapsed [] = True"
| "collapsed (c # cs) =
     ((if is_space c then c = 32 \<and> (cs = [] \<or> \<not> is_space (hd cs)) else True) \<and> collapsed cs)"

text \<open>
  A name is \<open>tidy\<close> when it is not empty, does not start with whitespace, is collapsed
  and has no reserved character.
\<close>

definition tidy :: "ustring \<Rightarrow> bool" where
  "tidy s \<longleftrightarrow> s \<noteq> [] \<and> \<not> is_space (hd s) \<and> collapsed s \<and> (\<forall>c \<in> set s. \<not> reserved c)"

text \<open>
  The references of a list of link records that the loop does not skip: those that
  are there and not empty.
\<close>

fun hrefs_of :: "link list \<Rightarrow> ustring list" where
  "hrefs_of [] = []"
| "hrefs_of (l # ls) =
     (case href l of
        None \<Rightarrow> hrefs_of ls
      | Some h \<Rightarrow> if h = [] then hrefs_of ls else h # hrefs_of ls)"

text \<open>
  A reference resolved against the final URL of the page, without its fragment; and
  the three tests a resolved URL passes to enter the frontier.
\<close>

definition resolve :: "env \<Rightarrow> ustring \<Rightarrow> ustring \<Rightarrow> ustring" where
  "resolve e result_url h = urldefrag e (urljoin e result_url h)"

definition admitted :: "env \<Rightarrow> ustring \<Rightarrow> ustring set \<Rightarrow> ustring \<Rightarrow> bool" where
  "admitted e base_netloc visited u \<longleftrightarrow>
     (scheme (urlparse e u) = ustr ''http'' \<or> scheme (urlparse e u) = ustr ''https'') \<and>
     netloc (urlparse e u) = base_netloc \<and> u \<notin> visited"

text \<open>
  The state after \<open>n\<close> passes of the loop, when the loop makes that many and no
  exception leaves it.
\<close>

fun after :: "env \<Rightarrow> ustring \<Rightarrow> ustring \<Rightarrow> int option \<Rightarrow> nat \<Rightarrow> state \<Rightarrow> state option" where
  "after e base_netloc output_dir max_pages 0 st = Some st"
| "after e base_netloc output_dir max_pages (Suc n) st =
     (case step e base_netloc output_dir max_pages st of
        Continue st' \<Rightarrow> after e base_netloc output_dir max_pages n st'
      | _ \<Rightarrow> None)"

text \<open>
  What the loop keeps true of \<^verbatim>\<open>seen\<close> and of the URLs fetched: the URLs fetched are the
  members of \<^verbatim>\<open>seen\<close>, each fetched once, and each is a result of \<^verbatim>\<open>urldefrag\<close>.
\<close>

definition visited_inv :: "env \<Rightarrow> state \<Rightarrow> bool" where
  "visited_inv e st \<longleftrightarrow>
     set (fetched st) = seen st \<and> distinct (fetched st) \<and>
     (\<forall>u \<in> seen st. \<exists>v. u = urldefrag e v)"

text \<open>
  What the loop keeps true of the lines printed and the files written: one line for
  each fetched URL whose fetch failed, in the order of the fetches, and at most one file
  for each fetched URL whose fetch succeeded.
\<close>

definition log_inv :: "env \<Rightarrow> state \<Rightarrow> bool" where
  "log_inv e st \<longleftrightarrow>
     printed st =
       map (\<lambda>u. skip_line u (error_message (arun e u)))
         (filter (\<lambda>u. \<not> success (arun e u)) (fetched st)) \<and>
     length (written st) \<le> length (filter (\<lambda>u. success (arun e u)) (fetched st))"

text \<open>The page cap, as a bound on the number of URLs fetched.\<close>

definition cap_inv :: "int option \<Rightarrow> state \<Rightarrow> bool" where
  "cap_inv max_pages st \<longleftrightarrow>
     (case max_pages of None \<Rightarrow> True | Some n \<Rightarrow> int (length (fetched st)) \<le> max 0 n)"

definition loop_inv :: "env \<Rightarrow> int option \<Rightarrow> state \<Rightarrow> bool" where
  "loop_inv e max_pages st \<longleftrightarrow> visited_inv e st \<and> log_inv e st \<and> cap_inv max_pages st"



text \<open>
  The last non-empty segment of a path, in the words of the specification: the last
  of the segments between slashes that are not empty, when there is one.
\<close>

definition last_segment :: "ustring \<Rightarrow> ustring option" where
  "last_segment p =
     (case filter (\<lambda>s. s \<noteq> []) (split_slash p) of [] \<Rightarrow> None | s # ss \<Rightarrow> Some (last (s # ss)))"

section \<open>Sanitizing a file name\<close>

lemma is_space_32: "is_space 32" by (simp add: is_space_def)
lemma not_space_45: "\<not> is_space 45" by (simp add: is_space_def)
lemma not_reserved_45: "\<not> reserved 45" by (simp add: reserved_def)
lemma not_reserved_32: "\<not> reserved 32" by (simp add: reserved_def)

lemma hd_sub_ws: "s \<noteq> [] \<Longrightarrow> \<not> is_space (hd s) \<Longrightarrow> sub_ws s \<noteq> [] \<and> hd (sub_ws s) = hd s"
  by (cases s) auto

lemma dropWhile_hd: "dropWhile P xs \<noteq> [] \<Longrightarrow> \<not> P (hd (dropWhile P xs))"
  by (simp add: hd_dropWhile)

lemma collapsed_sub_ws: "collapsed (sub_ws s)"
proof (induction s rule: sub_ws.induct)
  case 1
  show ?case by simp
next
  case (2 c cs)
  show ?case
  proof (cases "is_space c")
    case True
    let ?r = "dropWhile is_space cs"
    have "sub_ws ?r = [] \<or> \<not> is_space (hd (sub_ws ?r))"
    proof (cases "?r = []")
      case True
      then have "sub_ws ?r = []" by (simp only: sub_ws.simps)
      then show ?thesis by (rule disjI1)
    next
      case False
      then have "\<not> is_space (hd ?r)" by (rule dropWhile_hd)
      with False have "hd (sub_ws ?r) = hd ?r" using hd_sub_ws by blast
      with \<open>\<not> is_space (hd ?r)\<close> show ?thesis by simp
    qed
    with True 2 show ?thesis by (simp add: is_space_32)
  next
    case False
    with 2 show ?thesis by simp
  qed
qed

lemma sub_ws_collapsed: "collapsed s \<Longrightarrow> sub_ws s = s"
proof (induction s)
  case Nil
  show ?case by simp
next
  case (Cons c cs)
  show ?case
  proof (cases "is_space c")
    case True
    with Cons.prems have c: "c = 32" and h: "cs = [] \<or> \<not> is_space (hd cs)" and cc: "collapsed cs"
      by simp_all
    from h have "dropWhile is_space cs = cs" by (cases cs) auto
    with True c cc Cons.IH show ?thesis by simp
  next
    case False
    with Cons show ?thesis by simp
  qed
qed

lemma collapsed_take: "collapsed s \<Longrightarrow> collapsed (take n s)"
proof (induction s arbitrary: n)
  case Nil
  show ?case by simp
next
  case (Cons c cs)
  show ?case
  proof (cases n)
    case 0
    then show ?thesis by simp
  next
    case (Suc m)
    have "take m cs = [] \<or> hd (take m cs) = hd cs"
      by (cases m; cases cs) auto
    with Cons Suc show ?thesis by (auto split: if_splits)
  qed
qed

lemma collapsed_append: "\<forall>c \<in> set xs. \<not> is_space c \<Longrightarrow> collapsed (xs @ ys) = collapsed ys"
  by (induction xs) auto

lemma rstrip_take: "rstrip s = take (length s - length (takeWhile is_space (rev s))) s"
  by (simp add: rstrip_def dropWhile_eq_drop rev_drop)

lemma set_rstrip: "set (rstrip s) \<subseteq> set s"
  by (subst rstrip_take) (rule set_take_subset)

lemma length_rstrip: "length (rstrip s) \<le> length s"
  by (subst rstrip_take) simp

lemma collapsed_rstrip: "collapsed s \<Longrightarrow> collapsed (rstrip s)"
  by (subst rstrip_take) (rule collapsed_take)

lemma set_sub_ws: "set (sub_ws s) \<subseteq> insert 32 (set s)"
proof (induction s rule: sub_ws.induct)
  case 1
  show ?case by simp
next
  case (2 c cs)
  have "set (dropWhile is_space cs) \<subseteq> set cs"
    by (auto dest: set_dropWhileD)
  with 2 show ?case by auto
qed

lemma lstrip_id: "s = [] \<or> \<not> is_space (hd s) \<Longrightarrow> lstrip s = s"
  by (cases s) (auto simp: lstrip_def)

lemma rstrip_eq_Nil: "rstrip s = [] \<longleftrightarrow> (\<forall>c \<in> set s. is_space c)"
  by (auto simp: rstrip_def dropWhile_eq_Nil_conv)

lemma hd_rstrip: "s \<noteq> [] \<Longrightarrow> \<not> is_space (hd s) \<Longrightarrow> rstrip s \<noteq> [] \<and> hd (rstrip s) = hd s"
proof -
  assume a: "s \<noteq> []" "\<not> is_space (hd s)"
  then have ne: "rstrip s \<noteq> []" by (auto simp: rstrip_eq_Nil intro: bexI [of _ "hd s"])
  moreover have "hd (rstrip s) = hd s"
  proof -
    let ?k = "length s - length (takeWhile is_space (rev s))"
    have t: "rstrip s = take ?k s" by (rule rstrip_take)
    with ne have "?k \<noteq> 0" by auto
    then have "hd (take ?k s) = hd s" by (simp add: hd_take)
    with t show ?thesis by simp
  qed
  ultimately show ?thesis by simp
qed

lemma rstrip_idem: "rstrip (rstrip s) = rstrip s"
proof -
  have "dropWhile is_space (dropWhile is_space (rev s)) = dropWhile is_space (rev s)"
    by (simp add: dropWhile_idem)
  then show ?thesis by (simp add: rstrip_def)
qed

lemma dropWhile_id_iff: "dropWhile P xs = xs \<longleftrightarrow> (xs = [] \<or> \<not> P (hd xs))"
proof (cases xs)
  case Nil
  then show ?thesis by simp
next
  case (Cons x ys)
  show ?thesis
  proof (cases "P x")
    case True
    have "length (dropWhile P ys) \<le> length ys" by (rule length_dropWhile_le)
    then have "dropWhile P ys \<noteq> x # ys" by (auto dest: arg_cong [where f = length])
    with True Cons show ?thesis by simp
  next
    case False
    with Cons show ?thesis by simp
  qed
qed

lemma rstrip_id_iff: "rstrip s = s \<longleftrightarrow> (s = [] \<or> \<not> is_space (last s))"
proof -
  have "rstrip s = s \<longleftrightarrow> dropWhile is_space (rev s) = rev s"
    unfolding rstrip_def by (metis rev_rev_ident)
  also have "\<dots> \<longleftrightarrow> (rev s = [] \<or> \<not> is_space (hd (rev s)))"
    by (rule dropWhile_id_iff)
  also have "\<dots> \<longleftrightarrow> (s = [] \<or> \<not> is_space (last s))"
    by (cases "s = []") (simp_all add: hd_rev)
  finally show ?thesis .
qed

text \<open>Sanitizing a tidy name strips its trailing whitespace and truncates it.\<close>

lemma sanitize_tidy:
  assumes "tidy s"
  shows "sanitize_filename s = take 120 (rstrip s)"
proof -
  from assms have ne: "s \<noteq> []" and h: "\<not> is_space (hd s)" and c: "collapsed s"
    and r: "\<forall>c \<in> set s. \<not> reserved c"
    by (simp_all add: tidy_def)
  from ne h have l: "lstrip s = s" by (simp add: lstrip_id)
  from ne h have rn: "rstrip s \<noteq> []" and rh: "hd (rstrip s) = hd s"
    using hd_rstrip by blast+
  from l have 1: "strip s = rstrip s" by (simp add: strip_def)
  from r set_rstrip [of s] have "\<forall>c \<in> set (rstrip s). \<not> reserved c" by blast
  then have 2: "sub_reserved (rstrip s) = rstrip s"
    unfolding sub_reserved_def by (intro map_idI) simp
  from c have 3: "sub_ws (rstrip s) = rstrip s"
    by (intro sub_ws_collapsed collapsed_rstrip)
  from rn rh h have "lstrip (rstrip s) = rstrip s" by (simp add: lstrip_id)
  then have 4: "strip (rstrip s) = rstrip s" by (simp add: strip_def rstrip_idem)
  from rn 1 2 3 4 show ?thesis by (simp add: sanitize_filename_def)
qed

lemma tidy_take: "tidy s \<Longrightarrow> 0 < n \<Longrightarrow> tidy (take n s)"
  unfolding tidy_def
  by (auto simp: collapsed_take hd_take dest: in_set_takeD)

lemma tidy_cleaned:
  assumes "strip s \<noteq> []"
  shows "tidy (strip (sub_ws (sub_reserved (strip s))))"
proof -
  let ?a = "strip s" and ?b = "sub_reserved (strip s)" and ?c = "sub_ws (sub_reserved (strip s))"
  from assms have ln: "lstrip s \<noteq> []" by (auto simp: strip_def rstrip_def)
  then have "\<not> is_space (hd (lstrip s))" unfolding lstrip_def by (rule dropWhile_hd)
  with ln have ah: "\<not> is_space (hd ?a)" using hd_rstrip [of "lstrip s"] by (simp add: strip_def)
  from assms have bn: "?b \<noteq> []" by (simp add: sub_reserved_def)
  from assms ah have bh: "\<not> is_space (hd ?b)"
    by (simp add: sub_reserved_def hd_map not_space_45)
  have br: "\<forall>c \<in> set ?b. \<not> reserved c"
    by (auto simp: sub_reserved_def not_reserved_45)
  from bn bh have cn: "?c \<noteq> []" and ch: "hd ?c = hd ?b" using hd_sub_ws by blast+
  have cc: "collapsed ?c" by (rule collapsed_sub_ws)
  from br set_sub_ws [of ?b] have cr: "\<forall>c \<in> set ?c. \<not> reserved c"
    by (auto simp: not_reserved_32)
  from cn ch bh have sc: "strip ?c = rstrip ?c" by (simp add: strip_def lstrip_id)
  from cn ch bh have "rstrip ?c \<noteq> []" and "hd (rstrip ?c) = hd ?c"
    using hd_rstrip [of ?c] by simp_all
  moreover from cc have "collapsed (rstrip ?c)" by (rule collapsed_rstrip)
  moreover from cr set_rstrip [of ?c] have "\<forall>c \<in> set (rstrip ?c). \<not> reserved c" by blast
  ultimately show ?thesis using sc ch bh by (simp add: tidy_def)
qed

lemma tidy_sanitize: "tidy (sanitize_filename s)"
proof (cases "strip s = []")
  case True
  then have "sanitize_filename s = ustr ''untitled''" by (simp add: sanitize_filename_def)
  then show ?thesis by (simp add: tidy_def is_space_def reserved_def)
next
  case False
  then have "tidy (take 120 (strip (sub_ws (sub_reserved (strip s)))))"
    by (intro tidy_take tidy_cleaned) simp_all
  with False show ?thesis by (simp add: sanitize_filename_def)
qed

lemma length_sanitize: "length (sanitize_filename s) \<le> 120"
  by (simp add: sanitize_filename_def Let_def)

lemma sanitize_again: "sanitize_filename (sanitize_filename s) = rstrip (sanitize_filename s)"
proof -
  have "length (rstrip (sanitize_filename s)) \<le> 120"
    using length_rstrip [of "sanitize_filename s"] length_sanitize [of s] by simp
  then show ?thesis using sanitize_tidy [OF tidy_sanitize, of s] by simp
qed

text \<open>
  Claim C3, as the code has it.  The sanitized name has at most 120 characters.
  Sanitizing a sanitized name strips its trailing whitespace and changes nothing else:
  the truncation to 120 characters comes after the last \<^verbatim>\<open>strip()\<close>, so a sanitized name
  can end with a space.  Sanitizing is therefore idempotent at \<open>s\<close> exactly when the
  sanitized name does not end with whitespace, and it is stable from the second
  application on.
\<close>

theorem sanitize_filename_twice:
  "length (sanitize_filename s) \<le> 120 \<and>
   sanitize_filename (sanitize_filename s) = rstrip (sanitize_filename s) \<and>
   (sanitize_filename (sanitize_filename s) = sanitize_filename s \<longleftrightarrow>
      \<not> is_space (last (sanitize_filename s))) \<and>
   sanitize_filename (sanitize_filename (sanitize_filename s)) =
      sanitize_filename (sanitize_filename s)"
proof -
  let ?t = "sanitize_filename s"
  have ne: "?t \<noteq> []" using tidy_sanitize [of s] by (simp add: tidy_def)
  have a: "sanitize_filename ?t = rstrip ?t" by (rule sanitize_again)
  have b: "sanitize_filename ?t = ?t \<longleftrightarrow> \<not> is_space (last ?t)"
    using ne by (simp add: a rstrip_id_iff)
  have "sanitize_filename (sanitize_filename ?t) = rstrip (rstrip ?t)"
    using sanitize_again [of ?t] by (simp add: a)
  then have c: "sanitize_filename (sanitize_filename ?t) = sanitize_filename ?t"
    by (simp add: a rstrip_idem)
  from length_sanitize [of s] a b c show ?thesis by blast
qed

text \<open>The theorem at the name \<^verbatim>\<open>"  a/b   c  "\<close>, which sanitizes to \<^verbatim>\<open>"a-b c"\<close>.\<close>

theorem sanitize_filename_twice_witness:
  "length (sanitize_filename (ustr ''  a/b   c  '')) \<le> 120 \<and>
   sanitize_filename (ustr ''  a/b   c  '') = ustr ''a-b c'' \<and>
   sanitize_filename (sanitize_filename (ustr ''  a/b   c  '')) =
     sanitize_filename (ustr ''  a/b   c  '')"
proof -
  have e: "sanitize_filename (ustr ''  a/b   c  '') = ustr ''a-b c''"
    by (simp add: sanitize_filename_def strip_def lstrip_def rstrip_def is_space_def
        sub_reserved_def reserved_def)
  note t = sanitize_filename_twice [of "ustr ''  a/b   c  ''"]
  have "\<not> is_space (last (sanitize_filename (ustr ''  a/b   c  '')))"
    by (simp only: e) (simp add: is_space_def)
  with t have i: "sanitize_filename (sanitize_filename (ustr ''  a/b   c  '')) =
      sanitize_filename (ustr ''  a/b   c  '')"
    by blast
  from t have "length (sanitize_filename (ustr ''  a/b   c  '')) \<le> 120" by blast
  with e i show ?thesis by blast
qed

text \<open>
  Claim C3 as the specification states it fails: 119 letters \<^verbatim>\<open>a\<close>, a space and a \<^verbatim>\<open>b\<close>
  sanitize to the 119 letters and the space, and this sanitizes to the 119 letters.
\<close>

theorem sanitize_filename_not_idempotent:
  "sanitize_filename (sanitize_filename (replicate 119 97 @ [32, 98])) \<noteq>
     sanitize_filename (replicate 119 97 @ [32, 98])"
proof -
  let ?s = "replicate 119 97 @ [32, 98]"
  have sp: "\<not> is_space 97" "\<not> is_space 98" "is_space 32"
    by (simp_all add: is_space_def)
  have rs: "\<not> reserved 97" "\<not> reserved 98" "\<not> reserved 32"
    by (simp_all add: reserved_def)
  have "collapsed ?s" using sp by (subst collapsed_append) simp_all
  moreover have "hd ?s = 97" by (simp add: hd_append)
  moreover have "\<forall>c \<in> set ?s. \<not> reserved c" using rs by auto
  ultimately have "tidy ?s" using sp by (simp add: tidy_def)
  then have "sanitize_filename ?s = take 120 (rstrip ?s)" by (rule sanitize_tidy)
  moreover have "rstrip ?s = ?s" using sp by (simp add: rstrip_def)
  ultimately have t: "sanitize_filename ?s = replicate 119 97 @ [32]" by simp
  have "rstrip (replicate 119 97 @ [32]) = replicate 119 97"
    using sp by (simp add: rstrip_def)
  moreover have "sanitize_filename (sanitize_filename ?s) = rstrip (sanitize_filename ?s)"
    by (rule sanitize_again)
  ultimately have "sanitize_filename (sanitize_filename ?s) = replicate 119 97"
    by (simp only: t)
  then show ?thesis by (simp add: t)
qed

section \<open>One pass of the loop\<close>

lemma enqueue_links_eq:
  "enqueue_links e nl ru ls st =
     st\<lparr>queue := queue st @ filter (admitted e nl (seen st)) (map (resolve e ru) (hrefs_of ls))\<rparr>"
proof (induction ls arbitrary: st)
  case Nil
  show ?case by simp
next
  case (Cons l ls)
  show ?case
  proof (cases "href l")
    case None
    with Cons show ?thesis by simp
  next
    case (Some h)
    with Cons show ?thesis
      by (simp add: Let_def resolve_def admitted_def)
  qed
qed

lemma step_empty: "queue st = [] \<Longrightarrow> step e nl d mp st = Exit"
  by (simp add: step_def)

lemma step_cap: "cap_reached mp st \<Longrightarrow> step e nl d mp st = Exit"
  by (simp add: step_def split: list.split)

lemma step_seen:
  "queue st = h # r \<Longrightarrow> \<not> cap_reached mp st \<Longrightarrow> urldefrag e h \<in> seen st \<Longrightarrow>
   step e nl d mp st = Continue (st\<lparr>queue := r\<rparr>)"
  by (simp add: step_def)

lemma step_failed:
  "queue st = h # r \<Longrightarrow> \<not> cap_reached mp st \<Longrightarrow> urldefrag e h \<notin> seen st \<Longrightarrow>
   \<not> success (arun e (urldefrag e h)) \<Longrightarrow>
   step e nl d mp st =
     Continue (st\<lparr>queue := r, seen := insert (urldefrag e h) (seen st),
       fetched := fetched st @ [urldefrag e h],
       printed := printed st @
         [skip_line (urldefrag e h) (error_message (arun e (urldefrag e h)))]\<rparr>)"
  by (simp add: step_def Let_def)

lemma step_raise:
  "queue st = h # r \<Longrightarrow> \<not> cap_reached mp st \<Longrightarrow> urldefrag e h \<notin> seen st \<Longrightarrow>
   success (arun e (urldefrag e h)) \<Longrightarrow>
   extract_title (urlparse e) (metadata (arun e (urldefrag e h))) (html (arun e (urldefrag e h)))
     (url (arun e (urldefrag e h))) = Inl err \<Longrightarrow>
   step e nl d mp st =
     Raise err (st\<lparr>queue := r, seen := insert (urldefrag e h) (seen st),
       fetched := fetched st @ [urldefrag e h]\<rparr>)"
  by (simp add: step_def Let_def)

lemma step_page:
  "queue st = h # r \<Longrightarrow> \<not> cap_reached mp st \<Longrightarrow> urldefrag e h \<notin> seen st \<Longrightarrow>
   success (arun e (urldefrag e h)) \<Longrightarrow>
   extract_title (urlparse e) (metadata (arun e (urldefrag e h))) (html (arun e (urldefrag e h)))
     (url (arun e (urldefrag e h))) = Inr title \<Longrightarrow>
   step e nl d mp st =
     Continue (enqueue_links e nl (url (arun e (urldefrag e h)))
       (internal_links (arun e (urldefrag e h)))
       (st\<lparr>queue := r, seen := insert (urldefrag e h) (seen st),
          fetched := fetched st @ [urldefrag e h],
          used_names := (used_names st)(sanitize_filename title \<mapsto>
            (case used_names st (sanitize_filename title) of None \<Rightarrow> 0 | Some n \<Rightarrow> n) + 1),
          written := written st @
            [(d, make_filename (sanitize_filename title)
                (case used_names st (sanitize_filename title) of None \<Rightarrow> 0 | Some n \<Rightarrow> n),
              get_markdown (markdown (arun e (urldefrag e h))))]\<rparr>))"
  by (simp add: step_def Let_def)

text \<open>
  Every pass that does not end the loop takes the head of the queue; either its URL
  is in \<^verbatim>\<open>seen\<close> and nothing else changes, or the URL enters \<^verbatim>\<open>seen\<close> and is fetched.
\<close>

lemma step_Continue:
  assumes "step e nl d mp st = Continue st'"
  shows "queue st \<noteq> [] \<and> \<not> cap_reached mp st \<and>
     ((urldefrag e (hd (queue st)) \<in> seen st \<and> st' = st\<lparr>queue := tl (queue st)\<rparr>) \<or>
      (urldefrag e (hd (queue st)) \<notin> seen st \<and>
       seen st' = insert (urldefrag e (hd (queue st))) (seen st) \<and>
       fetched st' = fetched st @ [urldefrag e (hd (queue st))]))"
proof (cases "queue st")
  case Nil
  with assms show ?thesis by (simp add: step_empty)
next
  case (Cons h r)
  show ?thesis
  proof (cases "cap_reached mp st")
    case True
    with assms show ?thesis by (simp add: step_cap)
  next
    case nc: False
    show ?thesis
    proof (cases "urldefrag e h \<in> seen st")
      case True
      with assms Cons nc show ?thesis by (simp add: step_seen)
    next
      case ns: False
      show ?thesis
      proof (cases "success (arun e (urldefrag e h))")
        case False
        with assms Cons nc ns show ?thesis by (auto simp: step_failed)
      next
        case True
        show ?thesis
        proof (cases "extract_title (urlparse e) (metadata (arun e (urldefrag e h)))
            (html (arun e (urldefrag e h))) (url (arun e (urldefrag e h)))")
          case (Inl err)
          with assms Cons nc ns True show ?thesis by (simp add: step_raise)
        next
          case (Inr title)
          with assms Cons nc ns True show ?thesis
            by (auto simp: step_page enqueue_links_eq)
        qed
      qed
    qed
  qed
qed

lemma step_Raise:
  assumes "step e nl d mp st = Raise err st'"
  shows "queue st \<noteq> [] \<and> \<not> cap_reached mp st \<and>
     urldefrag e (hd (queue st)) \<notin> seen st \<and>
     st' = st\<lparr>queue := tl (queue st), seen := insert (urldefrag e (hd (queue st))) (seen st),
       fetched := fetched st @ [urldefrag e (hd (queue st))]\<rparr> \<and>
     (\<exists>msg. err = AttributeError msg)"
proof (cases "queue st")
  case Nil
  with assms show ?thesis by (simp add: step_empty)
next
  case (Cons h r)
  show ?thesis
  proof (cases "cap_reached mp st")
    case True
    with assms show ?thesis by (simp add: step_cap)
  next
    case nc: False
    show ?thesis
    proof (cases "urldefrag e h \<in> seen st")
      case True
      with assms Cons nc show ?thesis by (simp add: step_seen)
    next
      case ns: False
      show ?thesis
      proof (cases "success (arun e (urldefrag e h))")
        case False
        with assms Cons nc ns show ?thesis by (simp add: step_failed)
      next
        case True
        show ?thesis
        proof (cases "extract_title (urlparse e) (metadata (arun e (urldefrag e h)))
            (html (arun e (urldefrag e h))) (url (arun e (urldefrag e h)))")
          case (Inl err')
          then have "\<exists>msg. err' = AttributeError msg"
            by (auto simp: extract_title_def Let_def split: option.splits if_splits)
          with Inl assms Cons nc ns True show ?thesis by (simp add: step_raise)
        next
          case (Inr title)
          with assms Cons nc ns True show ?thesis by (simp add: step_page)
        qed
      qed
    qed
  qed
qed

section \<open>What the loop keeps true\<close>

lemma loop_inv_init: "loop_inv e mp (init_state start d)"
  by (simp add: loop_inv_def visited_inv_def log_inv_def cap_inv_def init_state_def
      split: option.split)

lemma visited_inv_card: "visited_inv e st \<Longrightarrow> card (seen st) = length (fetched st)"
  unfolding visited_inv_def by (metis distinct_card)

lemma cap_reached_length:
  "visited_inv e st \<Longrightarrow> cap_reached (Some n) st \<longleftrightarrow> n \<le> int (length (fetched st))"
  by (simp add: cap_reached_def visited_inv_card)

lemma loop_inv_pop: "loop_inv e mp st \<Longrightarrow> loop_inv e mp (st\<lparr>queue := q\<rparr>)"
  by (cases mp) (simp_all add: loop_inv_def visited_inv_def log_inv_def cap_inv_def)

lemma visited_inv_fetch:
  assumes "visited_inv e st" and "urldefrag e h \<notin> seen st"
    and "seen st' = insert (urldefrag e h) (seen st)"
    and "fetched st' = fetched st @ [urldefrag e h]"
  shows "visited_inv e st'"
  using assms unfolding visited_inv_def by auto

lemma cap_inv_fetch:
  assumes "visited_inv e st" and "cap_inv mp st" and "\<not> cap_reached mp st"
    and "fetched st' = fetched st @ [c]"
  shows "cap_inv mp st'"
proof (cases mp)
  case None
  then show ?thesis by (simp add: cap_inv_def)
next
  case (Some n)
  with assms(1,3) have "int (length (fetched st)) < n"
    by (simp add: cap_reached_length)
  with Some assms(4) show ?thesis by (simp add: cap_inv_def)
qed

lemma loop_inv_step:
  assumes "loop_inv e mp st"
    and "step e nl d mp st = Continue st' \<or> step e nl d mp st = Raise err st'"
  shows "loop_inv e mp st'"
proof (cases "queue st")
  case Nil
  with assms(2) show ?thesis by (simp add: step_empty)
next
  case (Cons h r)
  show ?thesis
  proof (cases "cap_reached mp st")
    case True
    with assms(2) show ?thesis by (simp add: step_cap)
  next
    case nc: False
    show ?thesis
    proof (cases "urldefrag e h \<in> seen st")
      case True
      with assms Cons nc show ?thesis by (auto simp: step_seen loop_inv_pop)
    next
      case ns: False
      let ?c = "urldefrag e h"
      from assms(1) have vi: "visited_inv e st" and li: "log_inv e st" and ci: "cap_inv mp st"
        by (simp_all add: loop_inv_def)
      from assms(2) have sf: "seen st' = insert ?c (seen st) \<and> fetched st' = fetched st @ [?c]"
        using step_Continue [of e nl d mp st st'] step_Raise [of e nl d mp st err st'] Cons ns
        by auto
      from vi ns sf have vi': "visited_inv e st'" by (auto intro: visited_inv_fetch)
      from vi ci nc sf have ci': "cap_inv mp st'" by (auto intro: cap_inv_fetch)
      have li': "log_inv e st'"
      proof (cases "success (arun e ?c)")
        case False
        with assms(2) Cons nc ns li show ?thesis
          by (auto simp: step_failed log_inv_def)
      next
        case True
        show ?thesis
        proof (cases "extract_title (urlparse e) (metadata (arun e ?c)) (html (arun e ?c))
            (url (arun e ?c))")
          case (Inl err')
          with assms(2) Cons nc ns li True show ?thesis
            by (auto simp: step_raise log_inv_def)
        next
          case (Inr title)
          with assms(2) Cons nc ns li True show ?thesis
            by (auto simp: step_page enqueue_links_eq log_inv_def)
        qed
      qed
      from vi' li' ci' show ?thesis by (simp add: loop_inv_def)
    qed
  qed
qed


lemma crawl_loop_inv:
  "loop_inv e mp st \<Longrightarrow> crawl_loop e nl d mp n st = Some (r, st') \<Longrightarrow> loop_inv e mp st'"
proof (induction n arbitrary: st)
  case 0
  then show ?case by simp
next
  case (Suc n)
  show ?case
  proof (cases "step e nl d mp st")
    case Exit
    with Suc.prems show ?thesis by simp
  next
    case (Continue st1)
    with Suc.prems(1) have "loop_inv e mp st1" by (blast intro: loop_inv_step)
    moreover from Continue Suc.prems(2) have "crawl_loop e nl d mp n st1 = Some (r, st')" by simp
    ultimately show ?thesis by (rule Suc.IH)
  next
    case (Raise err st1)
    with Suc.prems(1) have "loop_inv e mp st1" by (blast intro: loop_inv_step)
    with Raise Suc.prems(2) show ?thesis by simp
  qed
qed

text \<open>With a page cap the loop ends: each pass fetches a page or shortens the queue.\<close>

lemma crawl_loop_terminates:
  "loop_inv e (Some N) st \<Longrightarrow> \<exists>fuel r. crawl_loop e nl d (Some N) fuel st = Some r"
proof (induction st rule: wf_induct_rule
    [OF wf_measures [of "[\<lambda>st. nat N - length (fetched st), \<lambda>st. length (queue st)]"]])
  case (1 st)
  show ?case
  proof (cases "step e nl d (Some N) st")
    case Exit
    then have "crawl_loop e nl d (Some N) (Suc 0) st = Some (Inr (), st)" by simp
    then show ?thesis by blast
  next
    case (Raise err st1)
    then have "crawl_loop e nl d (Some N) (Suc 0) st = Some (Inl err, st1)" by simp
    then show ?thesis by blast
  next
    case (Continue st1)
    from "1.prems" Continue have inv1: "loop_inv e (Some N) st1" by (blast intro: loop_inv_step)
    from "1.prems" have vi: "visited_inv e st" by (simp add: loop_inv_def)
    note sc = step_Continue [OF Continue]
    from sc vi have lt: "int (length (fetched st)) < N" by (simp add: cap_reached_length)
    from sc have "(st1, st) \<in> measures [\<lambda>st. nat N - length (fetched st), \<lambda>st. length (queue st)]"
    proof (elim conjE disjE)
      assume "st1 = st\<lparr>queue := tl (queue st)\<rparr>" and "queue st \<noteq> []"
      then show ?thesis by simp
    next
      assume f: "fetched st1 = fetched st @ [urldefrag e (hd (queue st))]"
      from lt have "nat N - Suc (length (fetched st)) < nat N - length (fetched st)"
        by linarith
      with f show ?thesis by simp
    qed
    from "1.IH" [OF this inv1] obtain fuel r
      where "crawl_loop e nl d (Some N) fuel st1 = Some r" by blast
    with Continue have "crawl_loop e nl d (Some N) (Suc fuel) st = Some r" by simp
    then show ?thesis by blast
  qed
qed



section \<open>Running the small site\<close>

lemmas ex_simps = ex_env_def ex_arun_def ex_urlparse_def ex_urldefrag_def ex_urljoin_def
  page_def failed_def

lemmas str_simps = sanitize_filename_def strip_def lstrip_def rstrip_def is_space_def
  sub_reserved_def reserved_def

lemmas crawl_simps = crawl_site_def init_state_def effects_of_def no_effects_def step_def
  cap_reached_def internal_links_def skip_line_def make_filename_def extract_title_def
  metadata_title_def Let_def

lemma crawl_loop_numeral:
  "crawl_loop e b d m (numeral k) st =
     (case step e b d m st of
        Exit \<Rightarrow> Some (Inr (), st)
      | Raise err st' \<Rightarrow> Some (Inl err, st')
      | Continue st' \<Rightarrow> crawl_loop e b d m (pred_numeral k) st')"
  by (simp add: numeral_eq_Suc)

lemma crawl_loop_1:
  "crawl_loop e b d m 1 st =
     (case step e b d m st of
        Exit \<Rightarrow> Some (Inr (), st)
      | Raise err st' \<Rightarrow> Some (Inl err, st')
      | Continue st' \<Rightarrow> None)"
  using crawl_loop.simps(2) [of e b d m 0 st] by (simp split: step_result.split)

lemma after_numeral:
  "after e b d m (numeral k) st =
     (case step e b d m st of
        Continue st' \<Rightarrow> after e b d m (pred_numeral k) st'
      | _ \<Rightarrow> None)"
  by (simp add: numeral_eq_Suc)

lemma after_1:
  "after e b d m 1 st = (case step e b d m st of Continue st' \<Rightarrow> Some st' | _ \<Rightarrow> None)"
  using after.simps(2) [of e b d m 0 st] by (simp split: step_result.split)

lemmas run_simps = crawl_simps ex_simps str_simps crawl_loop_numeral crawl_loop_1
  after_numeral after_1

section \<open>The page cap\<close>

lemma crawl_site_loop:
  "crawl_site e fuel start d mp = Some (r, eff) \<Longrightarrow> netloc (urlparse e start) \<noteq> [] \<Longrightarrow>
   \<exists>st. crawl_loop e (netloc (urlparse e start)) d mp fuel (init_state start d) = Some (r, st) \<and>
     eff = effects_of st"
  by (auto simp: crawl_site_def Let_def)

lemma crawl_site_invalid_start:
  "netloc (urlparse e start) = [] \<Longrightarrow>
   crawl_site e fuel start d mp =
     Some (Inl (ValueError (ustr ''Invalid start URL.'')), no_effects)"
  by (simp add: crawl_site_def Let_def)

lemma effects_of_fields [simp]:
  "made_dirs (effects_of st) = made_dirs st" "fetched (effects_of st) = fetched st"
  "printed (effects_of st) = printed st" "written (effects_of st) = written st"
  by (simp_all add: effects_of_def)

lemma crawl_site_inv:
  assumes "crawl_site e fuel start d mp = Some (r, eff)"
  shows "distinct (fetched eff) \<and> (\<forall>u \<in> set (fetched eff). \<exists>v. u = urldefrag e v) \<and>
     printed eff =
       map (\<lambda>u. skip_line u (error_message (arun e u)))
         (filter (\<lambda>u. \<not> success (arun e u)) (fetched eff)) \<and>
     length (written eff) \<le> length (filter (\<lambda>u. success (arun e u)) (fetched eff)) \<and>
     (\<forall>n. mp = Some n \<longrightarrow> int (length (fetched eff)) \<le> max 0 n)"
proof (cases "netloc (urlparse e start) = []")
  case True
  with assms have "eff = no_effects" by (simp add: crawl_site_invalid_start)
  then show ?thesis by (simp add: no_effects_def)
next
  case False
  with assms obtain st
    where l: "crawl_loop e (netloc (urlparse e start)) d mp fuel (init_state start d) = Some (r, st)"
      and e: "eff = effects_of st"
    using crawl_site_loop by blast
  from loop_inv_init l have "loop_inv e mp st" by (rule crawl_loop_inv)
  with e show ?thesis
    by (auto simp: loop_inv_def visited_inv_def log_inv_def cap_inv_def)
qed

text \<open>
  Claim C4.  With \<^verbatim>\<open>max_pages = N\<close> and \<open>N \<ge> 0\<close>: the run ends (some amount of fuel
  suffices); in every run that ends, no URL is fetched twice and at most \<open>N\<close> URLs are
  fetched; and in a state where \<^verbatim>\<open>seen\<close> has reached the cap, the pass ends the loop
  without an exception and leaves the state, and so the rest of the queue, as it is.
\<close>

theorem crawl_site_page_cap:
  assumes "0 \<le> N"
  shows "(\<exists>fuel r. crawl_site e fuel start d (Some N) = Some r) \<and>
     (\<forall>fuel r eff. crawl_site e fuel start d (Some N) = Some (r, eff) \<longrightarrow>
        distinct (fetched eff) \<and> int (length (fetched eff)) \<le> N) \<and>
     (\<forall>nl fuel st. cap_reached (Some N) st \<longrightarrow>
        step e nl d (Some N) st = Exit \<and>
        crawl_loop e nl d (Some N) (Suc fuel) st = Some (Inr (), st))"
proof (intro conjI allI impI)
  show "\<exists>fuel r. crawl_site e fuel start d (Some N) = Some r"
  proof (cases "netloc (urlparse e start) = []")
    case True
    then show ?thesis by (simp add: crawl_site_invalid_start)
  next
    case False
    from crawl_loop_terminates [OF loop_inv_init] obtain fuel r
      where "crawl_loop e (netloc (urlparse e start)) d (Some N) fuel (init_state start d) = Some r"
      by blast
    with False have "crawl_site e fuel start d (Some N) = Some (fst r, effects_of (snd r))"
      by (simp add: crawl_site_def Let_def split_beta)
    then show ?thesis by blast
  qed
next
  fix fuel r eff
  assume "crawl_site e fuel start d (Some N) = Some (r, eff)"
  from crawl_site_inv [OF this] assms
  show "distinct (fetched eff)" and "int (length (fetched eff)) \<le> N" by simp_all
next
  fix nl fuel st
  assume "cap_reached (Some N) st"
  then show "step e nl d (Some N) st = Exit" by (rule step_cap)
  then show "crawl_loop e nl d (Some N) (Suc fuel) st = Some (Inr (), st)" by simp
qed

text \<open>
  The theorem on the small site with \<^verbatim>\<open>max_pages = 1\<close>: the home page is fetched and
  written, and the three links it put in the queue are left there.
\<close>

theorem crawl_site_page_cap_witness:
  "(0 :: int) \<le> 1 \<and>
   crawl_site ex_env 2 (ustr ''http://h/'') (ustr ''out'') (Some 1) =
     Some (Inr (), \<lparr>made_dirs = [ustr ''out''], fetched = [ustr ''http://h/''], printed = [],
       written = [(ustr ''out'', ustr ''Home.md'', ustr ''home page'')]\<rparr>) \<and>
   distinct [ustr ''http://h/''] \<and> int (length [ustr ''http://h/'']) \<le> 1 \<and>
   (\<exists>st. after ex_env (ustr ''h'') (ustr ''out'') (Some 1) 1
        (init_state (ustr ''http://h/'') (ustr ''out'')) = Some st \<and>
      queue st = [ustr ''http://h/a'', ustr ''http://h/a'', ustr ''http://h/b''] \<and>
      cap_reached (Some 1) st \<and>
      step ex_env (ustr ''h'') (ustr ''out'') (Some 1) st = Exit)"
proof -
  have ev: "crawl_site ex_env 2 (ustr ''http://h/'') (ustr ''out'') (Some 1) =
     Some (Inr (), \<lparr>made_dirs = [ustr ''out''], fetched = [ustr ''http://h/''], printed = [],
       written = [(ustr ''out'', ustr ''Home.md'', ustr ''home page'')]\<rparr>)"
    by (simp add: run_simps)
  have le: "(0 :: int) \<le> 1" by simp
  note T = crawl_site_page_cap [OF le, of ex_env "ustr ''http://h/''" "ustr ''out''"]
  from T ev
  have 1: "distinct (fetched \<lparr>made_dirs = [ustr ''out''], fetched = [ustr ''http://h/''],
      printed = [], written = [(ustr ''out'', ustr ''Home.md'', ustr ''home page'')]\<rparr>) \<and>
    int (length (fetched \<lparr>made_dirs = [ustr ''out''], fetched = [ustr ''http://h/''],
      printed = [], written = [(ustr ''out'', ustr ''Home.md'', ustr ''home page'')]\<rparr>)) \<le> 1"
    by blast
  obtain st where a: "after ex_env (ustr ''h'') (ustr ''out'') (Some 1) 1
        (init_state (ustr ''http://h/'') (ustr ''out'')) = Some st"
    and q: "queue st = [ustr ''http://h/a'', ustr ''http://h/a'', ustr ''http://h/b'']"
    and c: "cap_reached (Some 1) st"
    by (simp add: run_simps enqueue_links_eq resolve_def admitted_def)
  from T c have "step ex_env (ustr ''h'') (ustr ''out'') (Some 1) st = Exit" by blast
  with a q c have 2: "\<exists>st. after ex_env (ustr ''h'') (ustr ''out'') (Some 1) 1
        (init_state (ustr ''http://h/'') (ustr ''out'')) = Some st \<and>
      queue st = [ustr ''http://h/a'', ustr ''http://h/a'', ustr ''http://h/b''] \<and>
      cap_reached (Some 1) st \<and>
      step ex_env (ustr ''h'') (ustr ''out'') (Some 1) st = Exit"
    by blast
  from ev 1 2 show ?thesis by simp
qed

section \<open>The visited set\<close>




section \<open>Links\<close>



section \<open>Failed fetches\<close>




section \<open>The start of a crawl\<close>

lemma step_Exit: "step e nl d mp st = Exit \<Longrightarrow> queue st = [] \<or> cap_reached mp st"
proof (rule ccontr)
  assume ex: "step e nl d mp st = Exit" and "\<not> (queue st = [] \<or> cap_reached mp st)"
  then obtain h r where q: "queue st = h # r" and nc: "\<not> cap_reached mp st"
    by (cases "queue st") auto
  show False
  proof (cases "urldefrag e h \<in> seen st")
    case True
    from step_seen [OF q nc this] ex show False by simp
  next
    case ns: False
    show False
    proof (cases "success (arun e (urldefrag e h))")
      case False
      from step_failed [OF q nc ns this] ex show False by simp
    next
      case True
      show False
      proof (cases "extract_title (urlparse e) (metadata (arun e (urldefrag e h)))
          (html (arun e (urldefrag e h))) (url (arun e (urldefrag e h)))")
        case (Inl err)
        from step_raise [OF q nc ns True this] ex show False by simp
      next
        case (Inr title)
        from step_page [OF q nc ns True this] ex show False by simp
      qed
    qed
  qed
qed

text \<open>
  Unless the page cap is zero or less, the first pass takes the start URL from the
  queue, strips its fragment, and fetches it.
\<close>

lemma first_pass:
  assumes "\<forall>n. mp = Some n \<longrightarrow> 0 < n"
  shows "\<exists>st'. (step e nl d mp (init_state start d) = Continue st' \<or>
        (\<exists>err. step e nl d mp (init_state start d) = Raise err st')) \<and>
     seen st' = {urldefrag e start} \<and> fetched st' = [urldefrag e start]"
proof -
  let ?i = "init_state start d"
  have q: "queue ?i = [start]" and s: "seen ?i = {}" and f: "fetched ?i = []"
    by (simp_all add: init_state_def)
  from assms s have nc: "\<not> cap_reached mp ?i"
    by (cases mp) (simp_all add: cap_reached_def)
  show ?thesis
  proof (cases "step e nl d mp ?i")
    case Exit
    from step_Exit [OF this] q nc show ?thesis by simp
  next
    case (Continue st')
    from step_Continue [OF this] q s f
    have "seen st' = {urldefrag e start} \<and> fetched st' = [urldefrag e start]" by simp
    with Continue show ?thesis by blast
  next
    case (Raise err st')
    from step_Raise [OF this] q s f
    have "seen st' = {urldefrag e start} \<and> fetched st' = [urldefrag e start]" by simp
    with Raise show ?thesis by blast
  qed
qed

text \<open>
  Claim C5, as the code has it.  When the loop is entered \<^verbatim>\<open>seen\<close> is empty and the
  queue holds the start URL as it was given, fragment included.  The fragment is
  stripped when the URL is taken from the queue: unless the page cap is zero or less,
  the first pass puts the fragment-stripped start URL in \<^verbatim>\<open>seen\<close>, as its only member, and
  fetches it.
\<close>

theorem init_state_frontier:
  "seen (init_state start d) = {} \<and> queue (init_state start d) = [start] \<and>
   ((\<forall>n. mp = Some n \<longrightarrow> 0 < n) \<longrightarrow>
      (\<exists>st'. (step e nl d mp (init_state start d) = Continue st' \<or>
           (\<exists>err. step e nl d mp (init_state start d) = Raise err st')) \<and>
         seen st' = {urldefrag e start} \<and> fetched st' = [urldefrag e start]))"
  using first_pass [of mp e nl d start] by (simp add: init_state_def)

text \<open>The theorem on the small site, started at \<^verbatim>\<open>http://h/#top\<close> without a page cap.\<close>

theorem init_state_frontier_witness:
  "seen (init_state (ustr ''http://h/#top'') (ustr ''out'')) = {} \<and>
   queue (init_state (ustr ''http://h/#top'') (ustr ''out'')) = [ustr ''http://h/#top''] \<and>
   (\<exists>st'. step ex_env (ustr ''h'') (ustr ''out'') None
        (init_state (ustr ''http://h/#top'') (ustr ''out'')) = Continue st' \<and>
      seen st' = {ustr ''http://h/''} \<and> fetched st' = [ustr ''http://h/''])"
proof -
  note T = init_state_frontier [where start = "ustr ''http://h/#top''" and d = "ustr ''out''"
      and mp = None and e = ex_env and nl = "ustr ''h''"]
  have "\<forall>n. (None :: int option) = Some n \<longrightarrow> 0 < n" by simp
  from T [THEN conjunct2, THEN conjunct2, THEN mp, OF this]
  obtain st' where s: "step ex_env (ustr ''h'') (ustr ''out'') None
        (init_state (ustr ''http://h/#top'') (ustr ''out'')) = Continue st' \<or>
      (\<exists>err. step ex_env (ustr ''h'') (ustr ''out'') None
        (init_state (ustr ''http://h/#top'') (ustr ''out'')) = Raise err st')"
    and v: "seen st' = {urldefrag ex_env (ustr ''http://h/#top'')}"
    and f: "fetched st' = [urldefrag ex_env (ustr ''http://h/#top'')]"
    by blast
  have "\<exists>x. step ex_env (ustr ''h'') (ustr ''out'') None
        (init_state (ustr ''http://h/#top'') (ustr ''out'')) = Continue x"
    by (simp add: run_simps)
  with s have "step ex_env (ustr ''h'') (ustr ''out'') None
        (init_state (ustr ''http://h/#top'') (ustr ''out'')) = Continue st'"
    by auto
  moreover have "urldefrag ex_env (ustr ''http://h/#top'') = ustr ''http://h/''"
    by (simp add: ex_simps)
  ultimately show ?thesis using T v f by auto
qed

text \<open>
  Claim C5 as the specification states it fails: at the start of a crawl of
  \<^verbatim>\<open>http://h/#top\<close> neither the queue nor \<^verbatim>\<open>seen\<close> holds the fragment-stripped URL.
\<close>

theorem init_state_not_seeded:
  "\<not> (seen (init_state (ustr ''http://h/#top'') (ustr ''out'')) =
        {urldefrag ex_env (ustr ''http://h/#top'')} \<and>
      queue (init_state (ustr ''http://h/#top'') (ustr ''out'')) =
        [urldefrag ex_env (ustr ''http://h/#top'')])"
  by (simp add: init_state_def)




section \<open>The title of a page\<close>

lemma extract_title_metadata:
  "metadata_title md = Some t \<Longrightarrow> extract_title up md h u = Inr t"
  by (simp add: extract_title_def)

lemma metadata_title_Some:
  "metadata_title md = Some t \<longleftrightarrow> (\<exists>m. md = Some m \<and> m (ustr ''title'') = Some t \<and> t \<noteq> [])"
  by (auto simp: metadata_title_def split: option.splits if_splits)

lemma extract_title_html:
  "metadata_title md = None \<Longrightarrow> title_search h = Some g \<Longrightarrow>
   extract_title up md h u = Inl (AttributeError unescape_message)"
  by (cases h) (simp_all add: extract_title_def)

lemma split_slash_not_Nil: "split_slash s \<noteq> []"
  by (induction s) (auto split: list.splits)

lemma split_slash_snoc_slash: "split_slash (xs @ [47]) = split_slash xs @ [[]]"
  by (induction xs) (auto split: list.splits simp: split_slash_not_Nil)

lemma split_slash_snoc_other:
  "c \<noteq> 47 \<Longrightarrow>
   split_slash (xs @ [c]) = butlast (split_slash xs) @ [last (split_slash xs) @ [c]]"
proof (induction xs)
  case Nil
  then show ?case by simp
next
  case (Cons x xs)
  from split_slash_not_Nil [of xs] obtain w ws where s: "split_slash xs = w # ws"
    by (cases "split_slash xs") auto
  from split_slash_not_Nil [of "xs @ [c]"] obtain v vs where t: "split_slash (xs @ [c]) = v # vs"
    by (cases "split_slash (xs @ [c])") auto
  from Cons s t show ?case by (cases ws) auto
qed

lemma rstrip_slash_snoc_slash: "rstrip_slash (xs @ [47]) = rstrip_slash xs"
  by (simp add: rstrip_slash_def)

lemma rstrip_slash_snoc_other: "c \<noteq> 47 \<Longrightarrow> rstrip_slash (xs @ [c]) = xs @ [c]"
  by (simp add: rstrip_slash_def)

text \<open>
  What the script takes from the path, the last piece of the path without its trailing
  slashes, is the last non-empty segment of the path, and is empty when there is none.
\<close>

lemma last_split_rstrip:
  "last (split_slash (rstrip_slash p)) = (case last_segment p of None \<Rightarrow> [] | Some s \<Rightarrow> s)"
proof (induction p rule: rev_induct)
  case Nil
  show ?case by (simp add: rstrip_slash_def last_segment_def)
next
  case (snoc c xs)
  show ?case
  proof (cases "c = 47")
    case True
    have "last_segment (xs @ [47]) = last_segment xs"
      by (simp add: last_segment_def split_slash_snoc_slash)
    with True snoc show ?thesis by (simp add: rstrip_slash_snoc_slash)
  next
    case False
    let ?w = "last (split_slash xs) @ [c]"
    have f: "filter (\<lambda>s. s \<noteq> []) (split_slash (xs @ [c])) =
        filter (\<lambda>s. s \<noteq> []) (butlast (split_slash xs)) @ [?w]"
      by (simp add: split_slash_snoc_other [OF False])
    have "last_segment (xs @ [c]) = Some ?w"
      unfolding last_segment_def f
      by (cases "filter (\<lambda>s. s \<noteq> []) (butlast (split_slash xs))") simp_all
    moreover have "last (split_slash (rstrip_slash (xs @ [c]))) = ?w"
      by (simp add: rstrip_slash_snoc_other [OF False] split_slash_snoc_other [OF False])
    ultimately show ?thesis by simp
  qed
qed

lemma extract_title_url:
  "metadata_title md = None \<Longrightarrow> title_search h = None \<Longrightarrow>
   extract_title up md h u =
     Inr (case last_segment (path (up u)) of None \<Rightarrow> u | Some s \<Rightarrow> s)"
proof -
  assume a: "metadata_title md = None" "title_search h = None"
  have "last_segment (path (up u)) \<noteq> Some []"
  proof
    assume "last_segment (path (up u)) = Some []"
    then obtain s ss
      where f: "filter (\<lambda>s. s \<noteq> []) (split_slash (path (up u))) = s # ss"
        and l: "last (s # ss) = []"
      by (auto simp: last_segment_def split: list.splits)
    have "last (s # ss) \<in> set (s # ss)" by (rule last_in_set) simp
    then have "last (s # ss) \<in> set (filter (\<lambda>s. s \<noteq> []) (split_slash (path (up u))))"
      by (simp only: f)
    with l show False by simp
  qed
  with a show ?thesis
    by (auto simp: extract_title_def Let_def last_split_rstrip split: option.splits)
qed

text \<open>
  Claim C2 fails on the code in its second case.  For a page without a metadata title
  whose HTML is \<^verbatim>\<open><html><title>Hello</title></html>\<close> the search finds \<^verbatim>\<open>Hello\<close>, and
  \<^verbatim>\<open>_extract_title\<close> raises \<^verbatim>\<open>AttributeError\<close> where the claim has it return \<^verbatim>\<open>Hello\<close>.
\<close>

theorem extract_title_html_raises:
  "title_search (ustr ''<html><title>Hello</title></html>'') = Some (ustr ''Hello'') \<and>
   extract_title ex_urlparse None (ustr ''<html><title>Hello</title></html>'')
     (ustr ''http://h/t'') = Inl (AttributeError unescape_message) \<and>
   extract_title ex_urlparse (Some Map.empty) (ustr ''<html><title>Hello</title></html>'')
     (ustr ''http://h/t'') = Inl (AttributeError unescape_message)"
  by (simp add: extract_title_def metadata_title_def open_tag_def lit_ci_def)

section \<open>File names\<close>

text \<open>
  Claim C1 fails on the code.  On the small site the home page and the page \<^verbatim>\<open>/a\<close> are
  both titled \<^verbatim>\<open>Home\<close> and the page \<^verbatim>\<open>/b\<close> is titled \<^verbatim>\<open>Home-2\<close>: the second use of the base
  name \<^verbatim>\<open>Home\<close> and the first use of the base name \<^verbatim>\<open>Home-2\<close> both give \<^verbatim>\<open>Home-2.md\<close>, and the
  run writes that file twice.
\<close>

theorem crawl_site_filename_collision:
  "crawl_site ex_env 5 (ustr ''http://h/'') (ustr ''out'') None =
     Some (Inr (), \<lparr>made_dirs = [ustr ''out''],
       fetched = [ustr ''http://h/'', ustr ''http://h/a'', ustr ''http://h/b''],
       printed = [],
       written = [(ustr ''out'', ustr ''Home.md'', ustr ''home page''),
         (ustr ''out'', ustr ''Home-2.md'', ustr ''page a''),
         (ustr ''out'', ustr ''Home-2.md'', ustr ''page b'')]\<rparr>) \<and>
   \<not> distinct [ustr ''Home.md'', ustr ''Home-2.md'', ustr ''Home-2.md'']"
  by (simp add: run_simps)

section \<open>Exceptions\<close>

text \<open>
  Claim C9 fails on the code in its last part.  The page \<^verbatim>\<open>/t\<close> of the small site has
  its title in its HTML only; a crawl started there has a start URL with a network
  location, makes the directory, fetches the page, and ends with \<^verbatim>\<open>AttributeError\<close>.
\<close>

theorem crawl_site_attribute_error:
  "netloc (urlparse ex_env (ustr ''http://h/t'')) = ustr ''h'' \<and>
   crawl_site ex_env 2 (ustr ''http://h/t'') (ustr ''out'') None =
     Some (Inl (AttributeError unescape_message),
       \<lparr>made_dirs = [ustr ''out''], fetched = [ustr ''http://h/t''], printed = [],
        written = []\<rparr>)"
  by (simp add: run_simps open_tag_def lit_ci_def)

end
